theory Spec2Isabelle
  imports Complex_Main "HOL-Library.AList" "HOL-Library.Sublist"
begin

section \<open>Text processing (backend/chatbot/utils/text\_processor.py)\<close>

text \<open>
  A Python \<open>str\<close> is modelled as a \<open>string\<close>: a list of characters, each a code point
  below 256, so that \<open>length\<close> is Python's \<open>len\<close>. Python's \<open>str.split()\<close>,
  \<open>str.strip()\<close> and the regular-expression class \<open>\s\<close> share one notion of
  whitespace; below 256 it is the tab to carriage-return range, the four separators
  0x1C to 0x1F, the space, NEL (0x85) and the no-break space (0xA0).
\<close>

definition isspace :: "char \<Rightarrow> bool" where
  "isspace c = (c \<in> set [CHR 0x09, CHR 0x0A, CHR 0x0B, CHR 0x0C, CHR 0x0D,
                          CHR 0x1C, CHR 0x1D, CHR 0x1E, CHR 0x1F, CHR 0x20,
                          CHR 0x85, CHR 0xA0])"

text \<open>\<open>s.strip()\<close>: leading and trailing whitespace removed.\<close>

definition strip :: "string \<Rightarrow> string" where
  "strip s = rev (dropWhile isspace (rev (dropWhile isspace s)))"

text \<open>\<open>s.split()\<close>: the maximal runs of non-whitespace characters, in order.\<close>

function split_ws :: "string \<Rightarrow> string list" where
  "split_ws [] = []"
| "split_ws (c # cs) =
     (if isspace c then split_ws cs
      else (c # takeWhile (\<lambda>x. \<not> isspace x) cs) # split_ws (dropWhile (\<lambda>x. \<not> isspace x) cs))"
  by pat_completeness auto
termination
  by (relation "measure length") (auto simp: length_dropWhile_le le_imp_less_Suc)

text \<open>\<open>sep.join(ws)\<close>.\<close>

fun join :: "string \<Rightarrow> string list \<Rightarrow> string" where
  "join sep [] = []"
| "join sep [w] = w"
| "join sep (w # v # ws) = w @ sep @ join sep (v # ws)"

text \<open>
  \<open>xs[-k:]\<close> for \<open>k \<ge> 0\<close>: the last \<open>k\<close> elements, the whole list when \<open>k\<close> is at least
  its length, and also the whole list when \<open>k = 0\<close> (Python reads \<open>xs[-0:]\<close> as \<open>xs[0:]\<close>).
\<close>

definition slice_last :: "nat \<Rightarrow> 'a list \<Rightarrow> 'a list" where
  "slice_last k xs = (if k = 0 then xs else drop (length xs - k) xs)"

text \<open>
  \<open>re.split(r'(?<=[.!?])\s+', text)\<close>: the scan carries whether the previous character
  is one of \<open>.\<close>, \<open>!\<close>, \<open>?\<close> (the look-behind) and the piece read so far. A match is a
  maximal run of whitespace right after such a character; it closes the piece and is
  dropped. The result always holds the last piece, empty or not.
\<close>

definition sentence_end :: "char \<Rightarrow> bool" where
  "sentence_end c = (c = CHR ''.'' \<or> c = CHR ''!'' \<or> c = CHR ''?'')"

function re_split_scan :: "bool \<Rightarrow> string \<Rightarrow> string \<Rightarrow> string list" where
  "re_split_scan b piece [] = [piece]"
| "re_split_scan b piece (c # cs) =
     (if b \<and> isspace c then piece # re_split_scan False [] (dropWhile isspace cs)
      else re_split_scan (sentence_end c) (piece @ [c]) cs)"
  by pat_completeness auto
termination
  by (relation "measure (\<lambda>(b, piece, s). length s)")
     (auto simp: length_dropWhile_le le_imp_less_Suc)

definition split_sentences :: "string \<Rightarrow> string list" where
  "split_sentences text = re_split_scan False [] text"

subsection \<open>\<open>_split_large_chunk\<close>\<close>

text \<open>
  The loop over the words, with its three variables: the windows closed so far, the
  window under construction and \<open>current_size\<close>.
\<close>

fun split_large_loop ::
  "int \<Rightarrow> int \<Rightarrow> string list \<Rightarrow> string list \<Rightarrow> string list \<Rightarrow> int \<Rightarrow> string list \<times> string list"
where
  "split_large_loop chunk_size overlap [] chunks current_sub_chunk current_size =
     (chunks, current_sub_chunk)"
| "split_large_loop chunk_size overlap (word # ws) chunks current_sub_chunk current_size =
     (if current_size + int (length word) > chunk_size \<and> current_sub_chunk \<noteq> [] then
        (if overlap > 0 then
           (let overlap_words =
                  (if int (length current_sub_chunk) \<ge> overlap
                   then slice_last (nat overlap) current_sub_chunk
                   else current_sub_chunk);
                nxt = overlap_words @ [word]
            in split_large_loop chunk_size overlap ws
                 (chunks @ [join '' '' current_sub_chunk]) nxt
                 (sum_list (map (\<lambda>w. int (length w)) nxt) + int (length nxt) - 1))
         else split_large_loop chunk_size overlap ws
                (chunks @ [join '' '' current_sub_chunk]) [word] (int (length word)))
      else split_large_loop chunk_size overlap ws chunks
             (current_sub_chunk @ [word]) (current_size + int (length word) + 1))"

definition split_large_chunk :: "string \<Rightarrow> int \<Rightarrow> int \<Rightarrow> string list" where
  "split_large_chunk chunk chunk_size overlap =
     (case split_large_loop chunk_size overlap (split_ws chunk) [] [] 0 of
        (chunks, current_sub_chunk) \<Rightarrow>
          if current_sub_chunk \<noteq> [] then chunks @ [join '' '' current_sub_chunk] else chunks)"

subsection \<open>\<open>chunk_text\<close>\<close>

text \<open>The loop over the sentences: the chunks closed so far and \<open>current_chunk\<close>.\<close>

fun chunk_loop ::
  "int \<Rightarrow> int \<Rightarrow> string list \<Rightarrow> string list \<Rightarrow> string \<Rightarrow> string list \<times> string"
where
  "chunk_loop chunk_size overlap [] chunks current_chunk = (chunks, current_chunk)"
| "chunk_loop chunk_size overlap (sentence # ss) chunks current_chunk =
     (if int (length current_chunk) + int (length sentence) > chunk_size then
        (if current_chunk \<noteq> [] then
           (if overlap > 0 then
              (let words = split_ws current_chunk;
                   overlap_text =
                     join '' '' (slice_last (min (length words) (nat overlap)) words)
               in chunk_loop chunk_size overlap ss (chunks @ [strip current_chunk])
                    (overlap_text @ '' '' @ sentence))
            else chunk_loop chunk_size overlap ss (chunks @ [strip current_chunk]) sentence)
         else chunk_loop chunk_size overlap ss (chunks @ [strip sentence]) [])
      else chunk_loop chunk_size overlap ss chunks
             (if current_chunk \<noteq> [] then current_chunk @ '' '' @ sentence else sentence))"

text \<open>The chunks of the sentence pass, before the pass over the long ones.\<close>

definition sentence_chunks :: "string \<Rightarrow> int \<Rightarrow> int \<Rightarrow> string list" where
  "sentence_chunks text chunk_size overlap =
     (case chunk_loop chunk_size overlap (split_sentences text) [] [] of
        (chunks, current_chunk) \<Rightarrow>
          if current_chunk \<noteq> [] then chunks @ [strip current_chunk] else chunks)"

definition chunk_text :: "string \<Rightarrow> int \<Rightarrow> int \<Rightarrow> string list" where
  "chunk_text text chunk_size overlap =
     concat (map (\<lambda>chunk. if int (length chunk) > chunk_size
                           then split_large_chunk chunk chunk_size overlap
                           else [chunk])
                 (sentence_chunks text chunk_size overlap))"

subsection \<open>\<open>clean_text\<close>\<close>

text \<open>\<open>re.sub(r'\s+', ' ', text)\<close>: every maximal run of whitespace becomes one space.\<close>

function sub_whitespace :: "string \<Rightarrow> string" where
  "sub_whitespace [] = []"
| "sub_whitespace (c # cs) =
     (if isspace c then CHR '' '' # sub_whitespace (dropWhile isspace cs)
      else c # sub_whitespace cs)"
  by pat_completeness auto
termination
  by (relation "measure length") (auto simp: length_dropWhile_le le_imp_less_Suc)

text \<open>
  \<open>re.sub(r'\n\s*\n', '\n\n', text)\<close>: at a newline, the greedy \<open>\s*\<close> takes the whole
  run of whitespace that follows and gives back characters until a newline ends the
  match, so the match runs to the last newline of that run; without one there is no
  match at this position. \<open>last_newline ws\<close> is the number of characters of \<open>ws\<close> up to
  and including its last newline.
\<close>

definition last_newline :: "string \<Rightarrow> nat" where
  "last_newline ws = length ws - length (takeWhile (\<lambda>x. x \<noteq> CHR 0x0A) (rev ws))"

function sub_blank_lines :: "string \<Rightarrow> string" where
  "sub_blank_lines [] = []"
| "sub_blank_lines (c # cs) =
     (if c = CHR 0x0A \<and> CHR 0x0A \<in> set (takeWhile isspace cs)
      then CHR 0x0A # CHR 0x0A # sub_blank_lines (drop (last_newline (takeWhile isspace cs)) cs)
      else c # sub_blank_lines cs)"
  by pat_completeness auto
termination
  by (relation "measure length") auto

definition clean_text :: "string \<Rightarrow> string" where
  "clean_text text = strip (sub_blank_lines (sub_whitespace text))"

section \<open>The outside world\<close>

text \<open>
  Identifiers come from \<open>uuid.uuid4()\<close>; the \<open>n\<close>-th value drawn is modelled as the
  number \<open>n\<close>, so that two draws never give the same identifier. An embedding is a list
  of floats, read as reals: the code never computes with them. A payload is a Python
  dictionary with string keys, kept as an association list in insertion order.
\<close>

type_synonym uuid = nat

datatype exn = Exception string

datatype pval = PStr string | PInt int | PId uuid

type_synonym payload = "(string \<times> pval) list"

record point =
  point_id :: uuid
  vector :: "real list"
  payload :: payload

record scored_point =
  sp_id :: uuid
  sp_score :: real
  sp_payload :: payload

text \<open>The calls that leave the process, as they are made.\<close>

datatype call =
    EmbeddingsCreate "string list"
  | Upsert "point list"
  | Search "real list" nat
  | Scroll string nat
  | Delete "uuid list"
  | ChatCompletion "(string \<times> string) list"

text \<open>
  What the code cannot decide: the SHA-256 function of \<open>hashlib\<close>, whether building the
  OpenAI client raises, what the embedding and chat endpoints answer, which calls the
  vector store refuses, and the similarity the store ranks by.
\<close>

record env =
  sha256_hexdigest :: "string \<Rightarrow> string"
  openai_init :: "exn option"
  openai_embeddings :: "string list \<Rightarrow> exn + real list list"
  openai_chat :: "(string \<times> string) list \<Rightarrow> exn + string"
  qdrant_raises :: "call \<Rightarrow> bool"
  similarity :: "real list \<Rightarrow> real list \<Rightarrow> real"

subsection \<open>Rows (backend/database/models.py)\<close>

text \<open>The columns the pipeline reads or writes; the timestamps are left out.\<close>

record document =
  doc_id :: uuid
  source_path :: string
  title :: string
  content_hash :: string
  is_processed :: bool

record document_chunk =
  chunk_id :: uuid
  document_id :: uuid
  chunk_index :: nat
  content :: string
  vector_id :: "uuid option"
  token_count :: nat

text \<open>
  The state: the two tables as the session sees them, the collection
  \<open>document_chunks\<close> of the vector store, the calls made so far (oldest first) and the
  number of identifiers drawn.
\<close>

record world =
  documents :: "document list"
  chunk_rows :: "document_chunk list"
  collection :: "point list"
  calls :: "call list"
  uuid_count :: nat

subsection \<open>The vector store\<close>

text \<open>
  Modelled from the spec: the vector store is an external service (the package
  \<open>qdrant_client\<close> is not part of the repository). Sections 4.3 and 6 give its contract:
  upsert inserts or overwrites by id, search returns the \<open>k\<close> nearest points in
  descending order of score, scroll lists the points whose payload matches a filter, up
  to a limit, and delete removes points by id. A call that raises changes nothing.
  Every call is recorded.
\<close>

definition has_source_path :: "string \<Rightarrow> point \<Rightarrow> bool" where
  "has_source_path path p = (map_of (payload p) ''source_path'' = Some (PStr path))"

definition client_upsert :: "env \<Rightarrow> world \<Rightarrow> point list \<Rightarrow> (exn + unit) \<times> world" where
  "client_upsert env w points =
     (let w' = w\<lparr>calls := calls w @ [Upsert points]\<rparr>
      in if qdrant_raises env (Upsert points) then (Inl (Exception ''upsert''), w')
         else (Inr (),
               w'\<lparr>collection :=
                    filter (\<lambda>p. point_id p \<notin> set (map point_id points)) (collection w) @ points\<rparr>))"

definition client_search ::
  "env \<Rightarrow> world \<Rightarrow> real list \<Rightarrow> nat \<Rightarrow> (exn + scored_point list) \<times> world" where
  "client_search env w query_vector limit =
     (let w' = w\<lparr>calls := calls w @ [Search query_vector limit]\<rparr>
      in if qdrant_raises env (Search query_vector limit) then (Inl (Exception ''search''), w')
         else (Inr (take limit
                      (sort_key (\<lambda>h. - sp_score h)
                         (map (\<lambda>p. \<lparr>sp_id = point_id p,
                                     sp_score = similarity env query_vector (vector p),
                                     sp_payload = payload p\<rparr>)
                              (collection w)))),
               w'))"

definition client_scroll ::
  "env \<Rightarrow> world \<Rightarrow> string \<Rightarrow> nat \<Rightarrow> (exn + point list) \<times> world" where
  "client_scroll env w path limit =
     (let w' = w\<lparr>calls := calls w @ [Scroll path limit]\<rparr>
      in if qdrant_raises env (Scroll path limit) then (Inl (Exception ''scroll''), w')
         else (Inr (take limit (filter (has_source_path path) (collection w))), w'))"

definition client_delete :: "env \<Rightarrow> world \<Rightarrow> uuid list \<Rightarrow> (exn + unit) \<times> world" where
  "client_delete env w ids =
     (let w' = w\<lparr>calls := calls w @ [Delete ids]\<rparr>
      in if qdrant_raises env (Delete ids) then (Inl (Exception ''delete''), w')
         else (Inr (), w'\<lparr>collection := filter (\<lambda>p. point_id p \<notin> set ids) (collection w)\<rparr>))"

section \<open>Services\<close>

subsection \<open>\<open>EmbeddingService\<close> (backend/services/embedding\_service.py)\<close>

text \<open>\<open>create_embeddings\<close> turns an exception of the endpoint into an empty list.\<close>

definition create_embeddings :: "env \<Rightarrow> world \<Rightarrow> string list \<Rightarrow> real list list \<times> world" where
  "create_embeddings env w texts =
     (let w' = w\<lparr>calls := calls w @ [EmbeddingsCreate texts]\<rparr>
      in case openai_embeddings env texts of
           Inl e \<Rightarrow> ([], w')
         | Inr data \<Rightarrow> (data, w'))"

definition create_embedding :: "env \<Rightarrow> world \<Rightarrow> string \<Rightarrow> real list \<times> world" where
  "create_embedding env w text =
     (case create_embeddings env w [text] of
        (embeddings, w') \<Rightarrow> (if embeddings \<noteq> [] then hd embeddings else [], w'))"

subsection \<open>\<open>VectorStoreService\<close> (backend/nodejs/services/vector\_store\_service.py)\<close>

text \<open>
  The points built by the loop of \<open>store_embeddings\<close>: one for each pair of
  \<open>zip(texts, embeddings)\<close>, with the metadata of the same position (an empty dictionary
  when there is none) and the text added under the key \<open>text\<close>. A missing \<open>metadata\<close>
  argument (\<open>None\<close>) is the empty list.
\<close>

definition embedding_points ::
  "uuid list \<Rightarrow> string list \<Rightarrow> real list list \<Rightarrow> payload list \<Rightarrow> point list" where
  "embedding_points ids texts embeddings metadata =
     map (\<lambda>(i, text, embedding).
            \<lparr>point_id = ids ! i,
             vector = embedding,
             payload = AList.update ''text'' (PStr text)
                         (if metadata \<noteq> [] \<and> i < length metadata then metadata ! i else [])\<rparr>)
         (zip [0..<length texts] (zip texts embeddings))"

text \<open>
  The body of the \<open>try\<close> block, which may raise, and the function with its
  \<open>except Exception\<close> clause, which returns the empty list instead.
\<close>

definition store_embeddings_try ::
  "env \<Rightarrow> world \<Rightarrow> string list \<Rightarrow> payload list \<Rightarrow> (exn + uuid list) \<times> world" where
  "store_embeddings_try env w texts metadata =
     (case openai_init env of
        Some e \<Rightarrow> (Inl e, w)
      | None \<Rightarrow>
          (case create_embeddings env w texts of
             (embeddings, w1) \<Rightarrow>
               (let ids = [uuid_count w1 ..< uuid_count w1 + length texts];
                    w2 = w1\<lparr>uuid_count := uuid_count w1 + length texts\<rparr>;
                    points = embedding_points ids texts embeddings metadata
                in case client_upsert env w2 points of
                     (Inl e, w3) \<Rightarrow> (Inl e, w3)
                   | (Inr u, w3) \<Rightarrow> (Inr ids, w3))))"

definition store_embeddings ::
  "env \<Rightarrow> world \<Rightarrow> string list \<Rightarrow> payload list \<Rightarrow> uuid list \<times> world" where
  "store_embeddings env w texts metadata =
     (case store_embeddings_try env w texts metadata of
        (Inl e, w') \<Rightarrow> ([], w')
      | (Inr ids, w') \<Rightarrow> (ids, w'))"

record search_result =
  sr_id :: uuid
  sr_text :: pval
  sr_score :: real
  sr_metadata :: payload

definition format_hit :: "scored_point \<Rightarrow> search_result" where
  "format_hit hit =
     \<lparr>sr_id = sp_id hit,
      sr_text = (case map_of (sp_payload hit) ''text'' of Some v \<Rightarrow> v | None \<Rightarrow> PStr []),
      sr_score = sp_score hit,
      sr_metadata = filter (\<lambda>(k, v). k \<noteq> ''text'') (sp_payload hit)\<rparr>"

definition search_similar_try ::
  "env \<Rightarrow> world \<Rightarrow> string \<Rightarrow> nat \<Rightarrow> (exn + search_result list) \<times> world" where
  "search_similar_try env w query_text limit =
     (case openai_init env of
        Some e \<Rightarrow> (Inl e, w)
      | None \<Rightarrow>
          (case create_embedding env w query_text of
             (query_embedding, w1) \<Rightarrow>
               (case client_search env w1 query_embedding limit of
                  (Inl e, w2) \<Rightarrow> (Inl e, w2)
                | (Inr search_results, w2) \<Rightarrow> (Inr (map format_hit search_results), w2))))"

definition search_similar ::
  "env \<Rightarrow> world \<Rightarrow> string \<Rightarrow> nat \<Rightarrow> search_result list \<times> world" where
  "search_similar env w query_text limit =
     (case search_similar_try env w query_text limit of
        (Inl e, w') \<Rightarrow> ([], w')
      | (Inr results, w') \<Rightarrow> (results, w'))"

text \<open>
  \<open>delete_by_source_path\<close>: the scroll, with the limit 10000 of the source, is taken to
  yield the matching points, which is how the comprehension over its result reads them.
\<close>

definition delete_by_source_path_try ::
  "env \<Rightarrow> world \<Rightarrow> string \<Rightarrow> (exn + unit) \<times> world" where
  "delete_by_source_path_try env w path =
     (case client_scroll env w path 10000 of
        (Inl e, w1) \<Rightarrow> (Inl e, w1)
      | (Inr points, w1) \<Rightarrow>
          (let ids_to_delete = map point_id points
           in if ids_to_delete \<noteq> [] then client_delete env w1 ids_to_delete
              else (Inr (), w1)))"

definition delete_by_source_path :: "env \<Rightarrow> world \<Rightarrow> string \<Rightarrow> world" where
  "delete_by_source_path env w path = snd (delete_by_source_path_try env w path)"

subsection \<open>\<open>ChatService\<close> (backend/services/chat\_service.py)\<close>

text \<open>
  A value used as a condition: \<open>None\<close> and the empty string count as false.
\<close>

definition truthy :: "string option \<Rightarrow> bool" where
  "truthy s = (case s of None \<Rightarrow> False | Some x \<Rightarrow> x \<noteq> [])"

text \<open>
  The first block of \<open>get_context_aware_response\<close>: the selected text when there is one,
  otherwise the texts of \<open>search_similar(user_message)\<close>, whose limit defaults to 5.
\<close>

definition context_texts ::
  "env \<Rightarrow> world \<Rightarrow> string \<Rightarrow> string option \<Rightarrow> pval list \<times> world" where
  "context_texts env w user_message selected_text =
     (if truthy selected_text then ([PStr (the selected_text)], w)
      else (case search_similar env w user_message 5 of
              (search_results, w') \<Rightarrow> (map sr_text search_results, w')))"

text \<open>\<open>"\n\n".join(xs)\<close> raises a \<open>TypeError\<close> unless every element is a string.\<close>

fun str_of :: "pval \<Rightarrow> string option" where
  "str_of (PStr s) = Some s"
| "str_of v = None"

definition join_texts :: "pval list \<Rightarrow> exn + string" where
  "join_texts xs =
     (if list_all (\<lambda>v. str_of v \<noteq> None) xs
      then Inr (join [CHR 0x0A, CHR 0x0A] (map (\<lambda>v. the (str_of v)) xs))
      else Inl (Exception ''TypeError''))"

definition general_prompt :: string where
  "general_prompt = ''You are an AI assistant for the Physical AI & Humanoid Robotics textbook. Answer the user's question based on general knowledge about robotics and AI.''"

definition context_prompt :: "string \<Rightarrow> string" where
  "context_prompt context =
     ''You are an AI assistant for the Physical AI & Humanoid Robotics textbook.'' @ [CHR 0x0A] @
     ''                Use the following context from the textbook to answer the user's question:'' @
     [CHR 0x0A, CHR 0x0A] @ ''                '' @ context @ [CHR 0x0A, CHR 0x0A] @
     ''                If the context doesn't contain relevant information, say so.''"

text \<open>The system message: built from the first three context texts, if there is any.\<close>

definition system_message :: "pval list \<Rightarrow> exn + string" where
  "system_message ctx =
     (if ctx \<noteq> [] then
        (case join_texts (take 3 ctx) of
           Inl e \<Rightarrow> Inl e
         | Inr context \<Rightarrow> Inr (context_prompt context))
      else Inr general_prompt)"

record chat_response =
  response :: string
  sources :: "string list"

definition get_context_aware_response ::
  "env \<Rightarrow> world \<Rightarrow> string \<Rightarrow> string option \<Rightarrow> chat_response \<times> world" where
  "get_context_aware_response env w user_message selected_text =
     (case context_texts env w user_message selected_text of
        (ctx, w1) \<Rightarrow>
          (let failed = \<lparr>response = ''Sorry, I encountered an error processing your request.'',
                         sources = []\<rparr>
           in case system_message ctx of
                Inl e \<Rightarrow> (failed, w1)
              | Inr sys \<Rightarrow>
                  (let messages = [(''system'', sys), (''user'', user_message)];
                       w2 = w1\<lparr>calls := calls w1 @ [ChatCompletion messages]\<rparr>
                   in case openai_chat env messages of
                        Inl e \<Rightarrow> (failed, w2)
                      | Inr ai_response \<Rightarrow>
                          (\<lparr>response = ai_response,
                            sources = (if ctx \<noteq> [] then [''textbook_content''] else [])\<rparr>,
                           w2))))"

section \<open>Ingestion (backend/python/ingest.py)\<close>

subsection \<open>\<open>DocumentService\<close> (backend/services/database\_service.py)\<close>

text \<open>
  The database calls are taken to succeed. A query with \<open>.first()\<close> returns the first
  matching row; assigning to an attribute of the object it returned changes that row.
\<close>

fun update_first :: "('a \<Rightarrow> bool) \<Rightarrow> ('a \<Rightarrow> 'a) \<Rightarrow> 'a list \<Rightarrow> 'a list" where
  "update_first P f [] = []"
| "update_first P f (x # xs) = (if P x then f x # xs else x # update_first P f xs)"

definition create_document :: "world \<Rightarrow> string \<Rightarrow> string \<Rightarrow> string \<Rightarrow> document \<times> world" where
  "create_document w path ttl hash =
     (let doc = \<lparr>doc_id = uuid_count w, source_path = path, title = ttl,
                 content_hash = hash, is_processed = False\<rparr>
      in (doc, w\<lparr>documents := documents w @ [doc], uuid_count := Suc (uuid_count w)\<rparr>))"

definition get_document_by_source_path :: "world \<Rightarrow> string \<Rightarrow> document option" where
  "get_document_by_source_path w path = find (\<lambda>d. source_path d = path) (documents w)"

definition get_document_by_id :: "world \<Rightarrow> uuid \<Rightarrow> document option" where
  "get_document_by_id w i = find (\<lambda>d. doc_id d = i) (documents w)"

definition update_document_processed_status :: "world \<Rightarrow> uuid \<Rightarrow> bool \<Rightarrow> world" where
  "update_document_processed_status w i flag =
     w\<lparr>documents := update_first (\<lambda>d. doc_id d = i) (\<lambda>d. d\<lparr>is_processed := flag\<rparr>) (documents w)\<rparr>"

definition create_document_chunk ::
  "world \<Rightarrow> uuid \<Rightarrow> nat \<Rightarrow> string \<Rightarrow> nat \<Rightarrow> uuid option \<Rightarrow> world" where
  "create_document_chunk w did idx txt tokens vid =
     w\<lparr>chunk_rows := chunk_rows w @
          [\<lparr>chunk_id = uuid_count w, document_id = did, chunk_index = idx, content = txt,
            vector_id = vid, token_count = tokens\<rparr>],
       uuid_count := Suc (uuid_count w)\<rparr>"

subsection \<open>\<open>process_document\<close>\<close>

definition calculate_content_hash :: "env \<Rightarrow> string \<Rightarrow> string" where
  "calculate_content_hash env file_content = sha256_hexdigest env file_content"

text \<open>\<open>chunk_document\<close>: index, content and token count of every chunk.\<close>

definition chunk_document :: "string \<Rightarrow> int \<Rightarrow> int \<Rightarrow> (nat \<times> string \<times> nat) list" where
  "chunk_document file_content chunk_size overlap =
     map (\<lambda>(i, chunk). (i, chunk, length (split_ws chunk)))
         (enumerate 0 (chunk_text file_content chunk_size overlap))"

text \<open>
  Lines 78 to 89: the record of the document. An existing one gets the new hash at
  once; a new one is created with it.
\<close>

definition document_record ::
  "world \<Rightarrow> document option \<Rightarrow> string \<Rightarrow> string \<Rightarrow> string \<Rightarrow> document \<times> world" where
  "document_record w existing_doc relative_path stem hash =
     (case existing_doc of
        Some d \<Rightarrow>
          (d\<lparr>content_hash := hash\<rparr>,
           w\<lparr>documents := update_first (\<lambda>x. source_path x = relative_path)
                             (\<lambda>x. x\<lparr>content_hash := hash\<rparr>) (documents w)\<rparr>)
      | None \<Rightarrow> create_document w relative_path stem hash)"

text \<open>Lines 109 to 117: one row for each chunk, in order.\<close>

fun create_chunk_rows ::
  "world \<Rightarrow> uuid \<Rightarrow> uuid list \<Rightarrow> (nat \<times> nat \<times> string \<times> nat) list \<Rightarrow> world" where
  "create_chunk_rows w did vector_ids [] = w"
| "create_chunk_rows w did vector_ids ((i, idx, txt, tokens) # rest) =
     create_chunk_rows
       (create_document_chunk w did idx txt tokens
          (if i < length vector_ids then Some (vector_ids ! i) else None))
       did vector_ids rest"

text \<open>Lines 91 to 121: chunks, embeddings, rows and the flag.\<close>

definition ingest_chunks :: "env \<Rightarrow> world \<Rightarrow> document \<Rightarrow> string \<Rightarrow> string \<Rightarrow> world" where
  "ingest_chunks env w doc relative_path file_content =
     (let chunk_data = chunk_document file_content 1000 100;
          texts = map (\<lambda>(idx, txt, tokens). txt) chunk_data;
          metadata = map (\<lambda>(idx, txt, tokens).
                             [(''source_path'', PStr relative_path),
                              (''document_id'', PId (doc_id doc)),
                              (''chunk_index'', PInt (int idx))]) chunk_data
      in case store_embeddings env w texts metadata of
           (vector_ids, w1) \<Rightarrow>
             update_document_processed_status
               (create_chunk_rows w1 (doc_id doc) vector_ids (enumerate 0 chunk_data))
               (doc_id doc) True)"

definition process_document :: "env \<Rightarrow> world \<Rightarrow> string \<Rightarrow> string \<Rightarrow> string \<Rightarrow> world" where
  "process_document env w relative_path stem file_content =
     (let hash = calculate_content_hash env file_content;
          existing_doc = get_document_by_source_path w relative_path
      in case existing_doc of
           Some d \<Rightarrow>
             if content_hash d = hash then w
             else (case document_record (delete_by_source_path env w relative_path)
                          existing_doc relative_path stem hash of
                     (doc, w1) \<Rightarrow> ingest_chunks env w1 doc relative_path file_content)
         | None \<Rightarrow>
             (case document_record w existing_doc relative_path stem hash of
                (doc, w1) \<Rightarrow> ingest_chunks env w1 doc relative_path file_content))"

section \<open>Auxiliary notions for the proofs\<close>

subsection \<open>Rows and points of one ingestion run\<close>

text \<open>The rows that \<open>create_chunk_rows\<close> appends, the first with identifier \<open>u\<close>.\<close>

fun new_rows ::
  "nat \<Rightarrow> uuid \<Rightarrow> uuid list \<Rightarrow> (nat \<times> nat \<times> string \<times> nat) list \<Rightarrow> document_chunk list" where
  "new_rows u did vector_ids [] = []"
| "new_rows u did vector_ids ((i, idx, txt, tokens) # rest) =
     \<lparr>chunk_id = u, document_id = did, chunk_index = idx, content = txt,
      vector_id = (if i < length vector_ids then Some (vector_ids ! i) else None),
      token_count = tokens\<rparr> # new_rows (Suc u) did vector_ids rest"




subsection \<open>Ranking\<close>


subsection \<open>A small world to run the code in\<close>

text \<open>
  An outside world for concrete runs: the digest of a text is the text itself, the
  embedding of a text is its length, the store ranks a point by the first component of
  its vector, and two switches make the embedding endpoint or every call of the vector
  store raise.
\<close>

definition demo_env :: "bool \<Rightarrow> bool \<Rightarrow> env" where
  "demo_env embedding_fails store_fails =
     \<lparr>sha256_hexdigest = (\<lambda>s. s),
      openai_init = None,
      openai_embeddings = (\<lambda>texts. if embedding_fails then Inl (Exception ''api'')
                                     else Inr (map (\<lambda>t. [real (length t)]) texts)),
      openai_chat = (\<lambda>messages. Inr ''ok''),
      qdrant_raises = (\<lambda>c. store_fails),
      similarity = (\<lambda>q v. if v = [] then 0 else hd v)\<rparr>"

text \<open>
  One document \<open>a.md\<close>, ingested before with the content \<open>Old.\<close>: one row and one point.
\<close>

definition demo_world :: world where
  "demo_world =
     \<lparr>documents = [\<lparr>doc_id = 0, source_path = ''a.md'', title = ''a'', content_hash = ''Old.'',
                    is_processed = False\<rparr>],
      chunk_rows = [\<lparr>chunk_id = 2, document_id = 0, chunk_index = 0, content = ''Old.'',
                     vector_id = Some 1, token_count = 1\<rparr>],
      collection = [\<lparr>point_id = 1, vector = [4],
                     payload = [(''source_path'', PStr ''a.md''), (''document_id'', PId 0),
                                (''chunk_index'', PInt 0), (''text'', PStr ''Old.'')]\<rparr>],
      calls = [],
      uuid_count = 3\<rparr>"

subsection \<open>Invariant of a window that has not been closed yet\<close>


subsection \<open>Words, windows and overlap\<close>

text \<open>A word as \<open>str.split()\<close> returns it: not empty and free of whitespace.\<close>

definition proper_word :: "string \<Rightarrow> bool" where
  "proper_word w = (w \<noteq> [] \<and> (\<forall>c \<in> set w. \<not> isspace c))"

text \<open>
  The windows of \<open>_split_large_chunk\<close> as lists of words, before they are joined: those
  closed from the current state on, followed by the window still open at the end.
\<close>

fun window_run :: "int \<Rightarrow> int \<Rightarrow> string list \<Rightarrow> string list \<Rightarrow> int \<Rightarrow> string list list" where
  "window_run cs ov [] cur sz = [cur]"
| "window_run cs ov (w # ws) cur sz =
     (if sz + int (length w) > cs \<and> cur \<noteq> [] then
        (if ov > 0 then
           (let nxt = (if int (length cur) \<ge> ov then slice_last (nat ov) cur else cur) @ [w]
            in cur # window_run cs ov ws nxt
                       (sum_list (map (\<lambda>w. int (length w)) nxt) + int (length nxt) - 1))
         else cur # window_run cs ov ws [w] (int (length w)))
      else window_run cs ov ws (cur @ [w]) (sz + int (length w) + 1))"

text \<open>
  The chunks that the sentence pass of \<open>chunk_text\<close> emits from the current state on,
  the last running chunk included.
\<close>

fun sentence_run :: "int \<Rightarrow> int \<Rightarrow> string list \<Rightarrow> string \<Rightarrow> string list" where
  "sentence_run cs ov [] cur = (if cur \<noteq> [] then [strip cur] else [])"
| "sentence_run cs ov (s # ss) cur =
     (if int (length cur) + int (length s) > cs then
        (if cur \<noteq> [] then
           (if ov > 0 then
              strip cur # sentence_run cs ov ss
                (join '' '' (slice_last (min (length (split_ws cur)) (nat ov)) (split_ws cur))
                 @ '' '' @ s)
            else strip cur # sentence_run cs ov ss s)
         else strip s # sentence_run cs ov ss [])
      else sentence_run cs ov ss (if cur \<noteq> [] then cur @ '' '' @ s else s))"

text \<open>
  \<open>b\<close> starts with the overlap taken from \<open>a\<close>: the last \<open>n\<close> elements of \<open>a\<close>, or all
  of \<open>a\<close> when it has fewer.
\<close>

definition seeded :: "nat \<Rightarrow> 'a list \<Rightarrow> 'a list \<Rightarrow> bool" where
  "seeded n a b = prefix (slice_last (min (length a) n) a) b"

text \<open>
  The overlap between neighbours: when \<open>a\<close> has at least \<open>n\<close> elements, the first \<open>n\<close>
  elements of \<open>b\<close> (all of them when \<open>b\<close> has fewer) are the beginning of the last \<open>n\<close>
  elements of \<open>a\<close>.
\<close>

definition overlaps :: "nat \<Rightarrow> 'a list \<Rightarrow> 'a list \<Rightarrow> bool" where
  "overlaps n a b = (n \<le> length a \<longrightarrow> prefix (take n b) (slice_last n a))"

text \<open>What the final pass of \<open>chunk_text\<close> makes of one chunk, as lists of words.\<close>

definition word_blocks :: "int \<Rightarrow> int \<Rightarrow> string \<Rightarrow> string list list" where
  "word_blocks cs ov p =
     map split_ws (if int (length p) > cs then split_large_chunk p cs ov else [p])"

section \<open>Properties of the text processor\<close>

lemmas text_eval = chunk_text_def sentence_chunks_def split_sentences_def isspace_def strip_def
  sentence_end_def slice_last_def split_large_chunk_def clean_text_def last_newline_def

subsection \<open>Word windows\<close>


text \<open>The windows already closed are only ever extended at the end.\<close>

lemma split_large_loop_chunks:
  "split_large_loop cs ov ws chunks cur sz =
     (chunks @ fst (split_large_loop cs ov ws [] cur sz),
      snd (split_large_loop cs ov ws [] cur sz))"
proof (induction ws arbitrary: chunks cur sz)
  case Nil
  show ?case by simp
next
  case (Cons w ws)
  have a: "\<And>c cur' sz'. split_large_loop cs ov ws (chunks @ [c]) cur' sz' =
      (chunks @ c # fst (split_large_loop cs ov ws [] cur' sz'),
       snd (split_large_loop cs ov ws [] cur' sz'))"
    using Cons.IH[of "chunks @ [c]" for c] by simp
  have b: "\<And>c cur' sz'. split_large_loop cs ov ws [c] cur' sz' =
      (c # fst (split_large_loop cs ov ws [] cur' sz'),
       snd (split_large_loop cs ov ws [] cur' sz'))"
    using Cons.IH[of "[c]" for c] by simp
  show ?case
    by (simp add: a b Let_def Cons.IH[of chunks])
qed

lemma split_large_loop_single:
  "split_large_loop cs ov ws [c] cur sz =
     (c # fst (split_large_loop cs ov ws [] cur sz),
      snd (split_large_loop cs ov ws [] cur sz))"
  using split_large_loop_chunks[of cs ov ws "[c]" cur sz] by simp



subsection \<open>C3: the chunk bound\<close>




subsection \<open>Splitting into words and joining them\<close>

lemma split_ws_proper: "w \<in> set (split_ws s) \<Longrightarrow> proper_word w"
proof (induction s rule: split_ws.induct)
  case 1
  then show ?case by simp
next
  case (2 c cs)
  show ?case
  proof (cases "isspace c")
    case True
    with 2 show ?thesis by simp
  next
    case False
    have hd: "proper_word (c # takeWhile (\<lambda>x. \<not> isspace x) cs)"
      unfolding proper_word_def using False set_takeWhileD[of _ "\<lambda>x. \<not> isspace x" cs] by auto
    from "2.prems" False
    have "w = c # takeWhile (\<lambda>x. \<not> isspace x) cs \<or>
          w \<in> set (split_ws (dropWhile (\<lambda>x. \<not> isspace x) cs))"
      by simp
    then show ?thesis using hd "2.IH"(2)[OF False] by blast
  qed
qed

lemma split_ws_word: "proper_word w \<Longrightarrow> split_ws w = [w]"
proof (cases w)
  case Nil
  then show "proper_word w \<Longrightarrow> split_ws w = [w]" by (simp add: proper_word_def)
next
  case (Cons c cs)
  assume "proper_word w"
  then have ns: "\<not> isspace c" "\<forall>x \<in> set cs. \<not> isspace x"
    using Cons by (auto simp: proper_word_def)
  have tk: "takeWhile (\<lambda>x. \<not> isspace x) cs = cs"
    using ns(2) by (simp add: takeWhile_eq_all_conv)
  have dr: "dropWhile (\<lambda>x. \<not> isspace x) cs = []"
    using ns(2) by simp
  show "split_ws w = [w]"
    unfolding Cons by (simp only: split_ws.simps ns(1) if_False tk dr)
qed

lemma take_drop_nonspace_append:
  assumes "b = [] \<or> isspace (hd b)"
  shows "takeWhile (\<lambda>x. \<not> isspace x) (cs @ b) = takeWhile (\<lambda>x. \<not> isspace x) cs"
    and "dropWhile (\<lambda>x. \<not> isspace x) (cs @ b) = dropWhile (\<lambda>x. \<not> isspace x) cs @ b"
  using assms by (induction cs) (cases b; simp)+

lemma split_ws_append:
  "b = [] \<or> isspace (hd b) \<Longrightarrow> split_ws (a @ b) = split_ws a @ split_ws b"
proof (induction a rule: split_ws.induct)
  case 1
  then show ?case by simp
next
  case (2 c cs)
  then show ?case
    by (simp add: take_drop_nonspace_append)
qed

lemma split_ws_space_sep: "split_ws (a @ CHR '' '' # b) = split_ws a @ split_ws b"
proof -
  have "split_ws (a @ (CHR '' '' # b)) = split_ws a @ split_ws (CHR '' '' # b)"
    by (rule split_ws_append) (simp add: isspace_def)
  then show ?thesis by (simp add: isspace_def)
qed

lemma split_ws_join: "\<forall>w \<in> set ws. proper_word w \<Longrightarrow> split_ws (join '' '' ws) = ws"
proof (induction "'' ''" ws rule: join.induct)
  case 1
  then show ?case by simp
next
  case (2 w)
  then show ?case by (simp add: split_ws_word)
next
  case (3 w v ws)
  have "split_ws (w @ CHR '' '' # join '' '' (v # ws)) = split_ws w @ split_ws (join '' '' (v # ws))"
    by (rule split_ws_space_sep)
  with 3 show ?case by (simp add: split_ws_word)
qed

lemma split_ws_all_space: "\<forall>c \<in> set s. isspace c \<Longrightarrow> split_ws s = []"
  by (induction s) auto

lemma split_ws_dropWhile: "split_ws (dropWhile isspace s) = split_ws s"
  by (induction s) auto

lemma split_ws_strip: "split_ws (strip s) = split_ws s"
proof -
  let ?t = "dropWhile isspace s"
  have t: "?t = rev (dropWhile isspace (rev ?t)) @ rev (takeWhile isspace (rev ?t))"
    by (metis rev_append rev_rev_ident takeWhile_dropWhile_id)
  have sp: "\<forall>c \<in> set (rev (takeWhile isspace (rev ?t))). isspace c"
    by (auto dest: set_takeWhileD)
  then have hd: "rev (takeWhile isspace (rev ?t)) = [] \<or> isspace (hd (rev (takeWhile isspace (rev ?t))))"
    by (cases "rev (takeWhile isspace (rev ?t))") auto
  have "split_ws ?t = split_ws (rev (dropWhile isspace (rev ?t)) @ rev (takeWhile isspace (rev ?t)))"
    using t by simp
  also have "\<dots> = split_ws (rev (dropWhile isspace (rev ?t))) @ split_ws (rev (takeWhile isspace (rev ?t)))"
    by (rule split_ws_append[OF hd])
  also have "\<dots> = split_ws (strip s)"
    using split_ws_all_space[OF sp] by (simp add: strip_def)
  finally show ?thesis by (simp add: split_ws_dropWhile)
qed

lemma split_ws_nonempty: "\<exists>c \<in> set s. \<not> isspace c \<Longrightarrow> split_ws s \<noteq> []"
  by (induction s) auto

lemma strip_words: "strip s \<noteq> [] \<Longrightarrow> split_ws (strip s) \<noteq> []"
proof -
  assume ne: "strip s \<noteq> []"
  let ?r = "rev (dropWhile isspace s)"
  have "dropWhile isspace ?r \<noteq> []" using ne by (simp add: strip_def)
  then have "\<not> isspace (hd (dropWhile isspace ?r))" by (rule hd_dropWhile)
  moreover have "hd (dropWhile isspace ?r) \<in> set (strip s)"
    using \<open>dropWhile isspace ?r \<noteq> []\<close> by (simp add: strip_def)
  ultimately show ?thesis by (intro split_ws_nonempty) blast
qed

lemma window_run_nonempty [simp]: "window_run cs ov ws cur sz \<noteq> []"
  by (induction ws arbitrary: cur sz) (auto simp: Let_def)

lemma split_large_loop_run:
  "split_large_loop cs ov ws [] cur sz =
     (map (join '' '') (butlast (window_run cs ov ws cur sz)), last (window_run cs ov ws cur sz))"
proof (induction ws arbitrary: cur sz)
  case Nil
  show ?case by simp
next
  case (Cons w ws)
  show ?case
    by (simp add: Let_def split_large_loop_single Cons.IH)
qed

lemma window_run_last_nonempty:
  "cur \<noteq> [] \<or> ws \<noteq> [] \<Longrightarrow> last (window_run cs ov ws cur sz) \<noteq> []"
  by (induction ws arbitrary: cur sz) (auto simp: Let_def)

lemma split_large_chunk_run:
  "split_ws chunk \<noteq> [] \<Longrightarrow>
   split_large_chunk chunk cs ov = map (join '' '') (window_run cs ov (split_ws chunk) [] 0)"
proof -
  assume ne: "split_ws chunk \<noteq> []"
  let ?r = "window_run cs ov (split_ws chunk) [] 0"
  have "last ?r \<noteq> []" using ne by (intro window_run_last_nonempty) simp
  moreover have "map (join '' '') (butlast ?r) @ [join '' '' (last ?r)] = map (join '' '') ?r"
    by (metis append_butlast_last_id list.simps(8,9) map_append window_run_nonempty)
  ultimately show ?thesis
    by (simp add: split_large_chunk_def split_large_loop_run)
qed

lemma chunk_loop_run:
  "chunk_loop cs ov ss chunks cur = (chunks', cur') \<Longrightarrow>
   (if cur' \<noteq> [] then chunks' @ [strip cur'] else chunks') = chunks @ sentence_run cs ov ss cur"
proof (induction ss arbitrary: chunks cur)
  case Nil
  then show ?case by auto
next
  case (Cons s ss)
  show ?case
  proof (cases "int (length cur) + int (length s) > cs")
    case over: True
    show ?thesis
    proof (cases "cur \<noteq> []")
      case True
      show ?thesis
      proof (cases "ov > 0")
        case pos: True
        from Cons.prems over True pos
        have "chunk_loop cs ov ss (chunks @ [strip cur])
                (join '' '' (slice_last (min (length (split_ws cur)) (nat ov)) (split_ws cur))
                 @ '' '' @ s) = (chunks', cur')"
          by (simp add: Let_def)
        from Cons.IH[OF this] over True pos show ?thesis by simp
      next
        case False
        from Cons.prems over True False
        have "chunk_loop cs ov ss (chunks @ [strip cur]) s = (chunks', cur')" by simp
        from Cons.IH[OF this] over True False show ?thesis by simp
      qed
    next
      case False
      from Cons.prems over False
      have "chunk_loop cs ov ss (chunks @ [strip s]) [] = (chunks', cur')" by simp
      from Cons.IH[OF this] over False show ?thesis by simp
    qed
  next
    case False
    from Cons.prems False
    have "chunk_loop cs ov ss chunks (if cur \<noteq> [] then cur @ '' '' @ s else s) = (chunks', cur')"
      by simp
    from Cons.IH[OF this] False show ?thesis by simp
  qed
qed

lemma sentence_chunks_run:
  "sentence_chunks text cs ov = sentence_run cs ov (split_sentences text) []"
proof -
  obtain chunks' cur' where r: "chunk_loop cs ov (split_sentences text) [] [] = (chunks', cur')"
    by (cases "chunk_loop cs ov (split_sentences text) [] []")
  from chunk_loop_run[OF r] r show ?thesis
    by (simp add: sentence_chunks_def)
qed

lemma overlap_words_seed:
  "0 < ov \<Longrightarrow> cur \<noteq> [] \<Longrightarrow>
   (if int (length cur) \<ge> ov then slice_last (nat ov) cur else cur) =
   slice_last (min (length cur) (nat ov)) cur"
  by (auto simp: slice_last_def min_def)

lemma suffix_slice_last: "suffix (slice_last k xs) xs"
  by (simp add: slice_last_def suffix_drop)

lemma window_run_hd:
  "0 < ov \<Longrightarrow> prefix cur (hd (window_run cs ov ws cur sz)) \<and>
   prefix (hd (window_run cs ov ws cur sz)) (cur @ ws)"
proof (induction ws arbitrary: cur sz)
  case Nil
  show ?case by simp
next
  case (Cons w ws)
  show ?case
  proof (cases "sz + int (length w) > cs \<and> cur \<noteq> []")
    case True
    with Cons.prems show ?thesis by (simp add: Let_def)
  next
    case False
    from Cons.IH[OF Cons.prems, of "cur @ [w]" "sz + int (length w) + 1"]
    have "prefix (cur @ [w]) (hd (window_run cs ov ws (cur @ [w]) (sz + int (length w) + 1)))"
      and "prefix (hd (window_run cs ov ws (cur @ [w]) (sz + int (length w) + 1))) (cur @ w # ws)"
      by simp_all
    moreover from this(1) have "prefix cur (hd (window_run cs ov ws (cur @ [w]) (sz + int (length w) + 1)))"
      using append_prefixD by blast
    ultimately show ?thesis using False by auto
  qed
qed

lemma window_run_last:
  "0 < ov \<Longrightarrow> suffix (last (window_run cs ov ws cur sz)) (cur @ ws)"
proof (induction ws arbitrary: cur sz)
  case Nil
  show ?case by simp
next
  case (Cons w ws)
  show ?case
  proof (cases "sz + int (length w) > cs \<and> cur \<noteq> []")
    case True
    let ?o = "slice_last (min (length cur) (nat ov)) cur"
    let ?nxt = "?o @ [w]"
    let ?sz = "sum_list (map (\<lambda>w. int (length w)) ?nxt) + int (length ?nxt) - 1"
    have run: "window_run cs ov (w # ws) cur sz = cur # window_run cs ov ws ?nxt ?sz"
      using True Cons.prems overlap_words_seed[of ov cur] by (simp add: Let_def)
    have "suffix (last (window_run cs ov ws ?nxt ?sz)) (?nxt @ ws)"
      by (rule Cons.IH[OF Cons.prems])
    moreover have "suffix (?nxt @ ws) (cur @ w # ws)"
      using suffix_slice_last[of "min (length cur) (nat ov)" cur]
      by (auto simp: suffix_def)
    ultimately have "suffix (last (window_run cs ov ws ?nxt ?sz)) (cur @ w # ws)"
      using suffix_order.trans by blast
    then show ?thesis unfolding run by simp
  next
    case False
    from Cons.IH[OF Cons.prems, of "cur @ [w]" "sz + int (length w) + 1"] False
    show ?thesis by auto
  qed
qed

lemma window_run_seeded:
  "0 < ov \<Longrightarrow> successively (seeded (nat ov)) (window_run cs ov ws cur sz)"
proof (induction ws arbitrary: cur sz)
  case Nil
  show ?case by simp
next
  case (Cons w ws)
  show ?case
  proof (cases "sz + int (length w) > cs \<and> cur \<noteq> []")
    case True
    let ?o = "slice_last (min (length cur) (nat ov)) cur"
    let ?nxt = "?o @ [w]"
    let ?sz = "sum_list (map (\<lambda>w. int (length w)) ?nxt) + int (length ?nxt) - 1"
    have run: "window_run cs ov (w # ws) cur sz = cur # window_run cs ov ws ?nxt ?sz"
      using True Cons.prems overlap_words_seed[of ov cur] by (simp add: Let_def)
    have "prefix ?nxt (hd (window_run cs ov ws ?nxt ?sz))"
      using window_run_hd[OF Cons.prems] by blast
    then have "prefix ?o (hd (window_run cs ov ws ?nxt ?sz))"
      using append_prefixD by blast
    then have "seeded (nat ov) cur (hd (window_run cs ov ws ?nxt ?sz))"
      by (simp add: seeded_def)
    with Cons.IH[OF Cons.prems, of ?nxt ?sz] show ?thesis
      unfolding run by (simp add: successively_Cons)
  next
    case False
    from Cons.IH[OF Cons.prems, of "cur @ [w]" "sz + int (length w) + 1"] False
    show ?thesis by auto
  qed
qed

lemma window_run_words:
  "V \<in> set (window_run cs ov ws cur sz) \<Longrightarrow> set V \<subseteq> set cur \<union> set ws"
proof (induction ws arbitrary: cur sz)
  case Nil
  then show ?case by simp
next
  case (Cons w ws)
  show ?case
  proof (cases "sz + int (length w) > cs \<and> cur \<noteq> []")
    case True
    let ?o = "if int (length cur) \<ge> ov then slice_last (nat ov) cur else cur"
    have sub: "set ?o \<subseteq> set cur"
      using suffix_slice_last[of "nat ov" cur] by (auto dest: set_mono_suffix)
    show ?thesis
    proof (cases "ov > 0")
      case pos: True
      let ?nxt = "?o @ [w]"
      let ?sz = "sum_list (map (\<lambda>w. int (length w)) ?nxt) + int (length ?nxt) - 1"
      from Cons.prems True pos
      have "V = cur \<or> V \<in> set (window_run cs ov ws ?nxt ?sz)"
        by (simp add: Let_def)
      then show ?thesis
      proof
        assume "V = cur" then show ?thesis by auto
      next
        assume "V \<in> set (window_run cs ov ws ?nxt ?sz)"
        from Cons.IH[OF this] sub show ?thesis by auto
      qed
    next
      case False
      from Cons.prems True False
      have "V = cur \<or> V \<in> set (window_run cs ov ws [w] (int (length w)))" by simp
      then show ?thesis
      proof
        assume "V = cur" then show ?thesis by auto
      next
        assume "V \<in> set (window_run cs ov ws [w] (int (length w)))"
        from Cons.IH[OF this] show ?thesis by auto
      qed
    qed
  next
    case False
    with Cons.prems have "V \<in> set (window_run cs ov ws (cur @ [w]) (sz + int (length w) + 1))"
      by auto
    from Cons.IH[OF this] show ?thesis by auto
  qed
qed

lemma seed_words:
  "split_ws (join '' '' (slice_last k (split_ws cur)) @ '' '' @ s) =
     slice_last k (split_ws cur) @ split_ws s"
proof -
  have "\<forall>w \<in> set (slice_last k (split_ws cur)). proper_word w"
    using suffix_slice_last[of k "split_ws cur"] split_ws_proper
    by (meson set_mono_suffix subsetD)
  then show ?thesis by (simp add: split_ws_space_sep split_ws_join)
qed

lemma sentence_run_hd:
  "0 < ov \<Longrightarrow> cur \<noteq> [] \<Longrightarrow>
   sentence_run cs ov ss cur \<noteq> [] \<and>
   prefix (split_ws cur) (split_ws (hd (sentence_run cs ov ss cur)))"
proof (induction ss arbitrary: cur)
  case Nil
  then show ?case by (simp add: split_ws_strip)
next
  case (Cons s ss)
  show ?case
  proof (cases "int (length cur) + int (length s) > cs")
    case True
    with Cons.prems show ?thesis by (simp add: split_ws_strip)
  next
    case False
    have "cur @ '' '' @ s \<noteq> []" by simp
    from Cons.IH[OF Cons.prems(1) this]
    have "sentence_run cs ov ss (cur @ '' '' @ s) \<noteq> []"
      and "prefix (split_ws cur @ split_ws s) (split_ws (hd (sentence_run cs ov ss (cur @ '' '' @ s))))"
      by (simp_all add: split_ws_space_sep)
    moreover from this(2) have "prefix (split_ws cur) (split_ws (hd (sentence_run cs ov ss (cur @ '' '' @ s))))"
      using append_prefixD by blast
    ultimately show ?thesis using False Cons.prems(2) by simp
  qed
qed

lemma sentence_run_seeded:
  "0 < ov \<Longrightarrow> cur \<noteq> [] \<Longrightarrow>
   successively (\<lambda>a b. seeded (nat ov) (split_ws a) (split_ws b)) (sentence_run cs ov ss cur)"
proof (induction ss arbitrary: cur)
  case Nil
  then show ?case by simp
next
  case (Cons s ss)
  show ?case
  proof (cases "int (length cur) + int (length s) > cs")
    case True
    let ?seed = "slice_last (min (length (split_ws cur)) (nat ov)) (split_ws cur)"
    let ?cur2 = "join '' '' ?seed @ '' '' @ s"
    have run: "sentence_run cs ov (s # ss) cur = strip cur # sentence_run cs ov ss ?cur2"
      using True Cons.prems by simp
    have ne: "?cur2 \<noteq> []" by simp
    have "prefix (split_ws ?cur2) (split_ws (hd (sentence_run cs ov ss ?cur2)))"
      using sentence_run_hd[OF Cons.prems(1) ne] by blast
    then have "prefix ?seed (split_ws (hd (sentence_run cs ov ss ?cur2)))"
      unfolding seed_words using append_prefixD by blast
    then have "seeded (nat ov) (split_ws (strip cur)) (split_ws (hd (sentence_run cs ov ss ?cur2)))"
      by (simp add: seeded_def split_ws_strip)
    with Cons.IH[OF Cons.prems(1) ne] show ?thesis
      unfolding run by (simp add: successively_Cons)
  next
    case False
    have "cur @ '' '' @ s \<noteq> []" by simp
    from Cons.IH[OF Cons.prems(1) this] False Cons.prems(2) show ?thesis by simp
  qed
qed

lemma sentence_run_words:
  "c \<in> set (sentence_run cs ov ss cur) \<Longrightarrow> c \<noteq> [] \<Longrightarrow> split_ws c \<noteq> []"
proof (induction cs ov ss cur rule: sentence_run.induct)
  case (1 cs ov cur)
  then show ?case by (auto simp: strip_words split: if_splits)
next
  case (2 cs ov s ss cur)
  then show ?case by (auto simp: strip_words split: if_splits)
qed

lemma re_split_scan_first:
  "re_split_scan b piece rest = s # ss \<Longrightarrow> piece \<noteq> [] \<or> \<not> b \<Longrightarrow> s = [] \<Longrightarrow> ss = []"
proof (induction b piece rest arbitrary: s ss rule: re_split_scan.induct)
  case (1 b piece)
  then show ?case by simp
next
  case (2 b piece c cs)
  show ?case
  proof (cases "b \<and> isspace c")
    case True
    with "2.prems" show ?thesis by auto
  next
    case False
    with "2.prems"(1) have run: "re_split_scan (sentence_end c) (piece @ [c]) cs = s # ss" by simp
    note empty = "2.prems"(3)
    note ih = "2.IH"(2)
    have "piece @ [c] \<noteq> [] \<or> \<not> sentence_end c" by simp
    from ih[OF False run this empty] show ?thesis .
  qed
qed

lemma re_split_scan_nonempty: "re_split_scan b piece rest \<noteq> []"
  by (induction b piece rest rule: re_split_scan.induct) auto

lemma sentence_chunks_first:
  assumes "0 < ov" "int (length (hd (split_sentences text))) \<le> cs"
  shows "successively (\<lambda>a b. seeded (nat ov) (split_ws a) (split_ws b)) (sentence_chunks text cs ov)"
proof -
  obtain s ss where ss: "split_sentences text = s # ss"
    using re_split_scan_nonempty[of False "[]" "text"]
    by (cases "split_sentences text") (auto simp: split_sentences_def)
  have len: "\<not> int (length s) > cs" using assms(2) ss by simp
  show ?thesis
  proof (cases "s = []")
    case True
    then have "ss = []"
      using re_split_scan_first[of False "[]" "text" s ss] ss by (simp add: split_sentences_def)
    with True len show ?thesis by (simp add: sentence_chunks_run ss)
  next
    case False
    have "sentence_chunks text cs ov = sentence_run cs ov ss s"
      using len by (simp add: sentence_chunks_run ss)
    with sentence_run_seeded[OF assms(1) False] show ?thesis by simp
  qed
qed

lemma seeded_overlaps: "0 < n \<Longrightarrow> seeded n a b \<Longrightarrow> overlaps n a b"
proof -
  assume pos: "0 < n" and s: "seeded n a b"
  show ?thesis
    unfolding overlaps_def
  proof
    assume n: "n \<le> length a"
    then have "prefix (slice_last n a) b" using s by (simp add: seeded_def min_absorb2)
    then obtain r where b: "b = slice_last n a @ r" by (auto simp: prefix_def)
    have "length (slice_last n a) = n" using n pos by (simp add: slice_last_def)
    then have "take n b = slice_last n a" by (simp add: b)
    then show "prefix (take n b) (slice_last n a)" by simp
  qed
qed

lemma boundary_overlaps:
  assumes "suffix l a" "prefix f b" "seeded n a b" "0 < n"
  shows "overlaps n l f"
  unfolding overlaps_def
proof
  assume n: "n \<le> length l"
  from assms(1) obtain x where a: "a = x @ l" by (auto simp: suffix_def)
  have la: "n \<le> length a" using n a by simp
  have sl: "slice_last n a = slice_last n l"
    using n assms(4) by (simp add: slice_last_def a)
  have "prefix (slice_last n a) b" using assms(3) la by (simp add: seeded_def min_absorb2)
  then obtain r where b: "b = slice_last n a @ r" by (auto simp: prefix_def)
  have len: "length (slice_last n a) = n" using la assms(4) by (simp add: slice_last_def)
  then have tb: "take n b = slice_last n a" by (simp add: b)
  from assms(2) obtain r' where "b = f @ r'" by (auto simp: prefix_def)
  then have "take n b = take n f @ take (n - length f) r'" by simp
  then have "prefix (take n f) (take n b)" by simp
  then show "prefix (take n f) (slice_last n l)" using tb sl by simp
qed

lemma word_blocks_props:
  assumes "0 < ov" "0 \<le> cs" "p \<noteq> [] \<longrightarrow> split_ws p \<noteq> []"
  shows "word_blocks cs ov p \<noteq> []"
    and "prefix (hd (word_blocks cs ov p)) (split_ws p)"
    and "suffix (last (word_blocks cs ov p)) (split_ws p)"
    and "successively (overlaps (nat ov)) (word_blocks cs ov p)"
proof -
  have "word_blocks cs ov p \<noteq> [] \<and> prefix (hd (word_blocks cs ov p)) (split_ws p) \<and>
        suffix (last (word_blocks cs ov p)) (split_ws p) \<and>
        successively (overlaps (nat ov)) (word_blocks cs ov p)"
  proof (cases "int (length p) > cs")
    case False
    then show ?thesis by (simp add: word_blocks_def)
  next
    case True
    then have "p \<noteq> []" using assms(2) by auto
    then have ne: "split_ws p \<noteq> []" using assms(3) by simp
    let ?r = "window_run cs ov (split_ws p) [] 0"
    have "\<forall>V \<in> set ?r. split_ws (join '' '' V) = V"
    proof
      fix V assume "V \<in> set ?r"
      then have "set V \<subseteq> set (split_ws p)" using window_run_words by fastforce
      then have "\<forall>w \<in> set V. proper_word w" using split_ws_proper by blast
      then show "split_ws (join '' '' V) = V" by (rule split_ws_join)
    qed
    then have "map split_ws (map (join '' '') ?r) = ?r"
      by (simp add: map_idI)
    then have blk: "word_blocks cs ov p = ?r"
      using True by (simp add: word_blocks_def split_large_chunk_run[OF ne])
    have "successively (overlaps (nat ov)) ?r"
      using window_run_seeded[OF assms(1), of cs "split_ws p" "[]" 0]
      by (rule successively_mono) (use assms(1) in \<open>simp add: seeded_overlaps\<close>)
    moreover have "prefix (hd ?r) (split_ws p)"
      using window_run_hd[OF assms(1), of "[]" cs "split_ws p" 0] by simp
    moreover have "suffix (last ?r) (split_ws p)"
      using window_run_last[OF assms(1), of cs "split_ws p" "[]" 0] by simp
    ultimately show ?thesis unfolding blk by simp
  qed
  then show "word_blocks cs ov p \<noteq> []"
    and "prefix (hd (word_blocks cs ov p)) (split_ws p)"
    and "suffix (last (word_blocks cs ov p)) (split_ws p)"
    and "successively (overlaps (nat ov)) (word_blocks cs ov p)"
    by simp_all
qed

lemma blocks_chain:
  assumes "0 < ov" "0 \<le> cs"
  shows "successively (\<lambda>a b. seeded (nat ov) (split_ws a) (split_ws b)) ps \<Longrightarrow>
         \<forall>p \<in> set ps. p \<noteq> [] \<longrightarrow> split_ws p \<noteq> [] \<Longrightarrow>
         successively (overlaps (nat ov)) (concat (map (word_blocks cs ov) ps)) \<and>
         (ps \<noteq> [] \<longrightarrow> concat (map (word_blocks cs ov) ps) \<noteq> [] \<and>
            prefix (hd (concat (map (word_blocks cs ov) ps))) (split_ws (hd ps)))"
proof (induction ps)
  case Nil
  show ?case by simp
next
  case (Cons p ps)
  have q: "p \<noteq> [] \<longrightarrow> split_ws p \<noteq> []" using Cons.prems(2) by simp
  note blk = word_blocks_props[OF assms q]
  have chain: "successively (\<lambda>a b. seeded (nat ov) (split_ws a) (split_ws b)) ps"
    using Cons.prems(1) by (auto simp: successively_Cons)
  have qs: "\<forall>p \<in> set ps. p \<noteq> [] \<longrightarrow> split_ws p \<noteq> []" using Cons.prems(2) by simp
  note ih = Cons.IH[OF chain qs]
  let ?rest = "concat (map (word_blocks cs ov) ps)"
  have bnd: "?rest \<noteq> [] \<longrightarrow> overlaps (nat ov) (last (word_blocks cs ov p)) (hd ?rest)"
  proof
    assume "?rest \<noteq> []"
    then have ne: "ps \<noteq> []" by auto
    then have "seeded (nat ov) (split_ws p) (split_ws (hd ps))"
      using Cons.prems(1) by (auto simp: successively_Cons)
    moreover have "prefix (hd ?rest) (split_ws (hd ps))" using ih ne by simp
    ultimately show "overlaps (nat ov) (last (word_blocks cs ov p)) (hd ?rest)"
      using boundary_overlaps[OF blk(3)] assms(1) by simp
  qed
  have "successively (overlaps (nat ov)) (word_blocks cs ov p @ ?rest)"
    using blk(4) ih bnd blk(1) by (auto simp: successively_append_iff)
  moreover have "hd (word_blocks cs ov p @ ?rest) = hd (word_blocks cs ov p)"
    using blk(1) by simp
  ultimately show ?case using blk(1,2) by simp
qed

lemma successively_nth:
  "successively R xs \<Longrightarrow> Suc i < length xs \<Longrightarrow> R (xs ! i) (xs ! Suc i)"
proof (induction xs arbitrary: i)
  case Nil
  then show ?case by simp
next
  case (Cons x xs)
  show ?case
  proof (cases i)
    case 0
    with Cons.prems show ?thesis by (cases xs) (auto simp: successively_Cons)
  next
    case (Suc j)
    with Cons.prems have "successively R xs" "Suc j < length xs"
      by (auto simp: successively_Cons)
    from Cons.IH[OF this] Suc show ?thesis by simp
  qed
qed

lemma chunk_text_blocks:
  "map split_ws (chunk_text text cs ov) =
     concat (map (word_blocks cs ov) (sentence_chunks text cs ov))"
  by (simp add: chunk_text_def map_concat comp_def word_blocks_def[abs_def])

subsection \<open>C4: the overlap between consecutive chunks\<close>

text \<open>
  C4, as stated: with \<open>overlap = n > 0\<close>, whenever a chunk has at least \<open>n\<close> words, the
  next chunk starts with its last \<open>n\<close> words. A sentence longer than \<open>chunk_size\<close> that
  meets an empty running chunk is emitted on its own and the running chunk stays
  empty, so nothing of it is carried over: below, with \<open>n = 1\<close>, the first chunk is one
  word and the second chunk starts with another.
\<close>

theorem overlap_counterexample:
  "chunk_text ''aaaaaaaa. bb.'' 5 1 = [''aaaaaaaa.'', ''bb.'']
   \<and> 1 \<le> length (split_ws (chunk_text ''aaaaaaaa. bb.'' 5 1 ! 0))
   \<and> take 1 (split_ws (chunk_text ''aaaaaaaa. bb.'' 5 1 ! 1)) = [''bb.'']
   \<and> slice_last 1 (split_ws (chunk_text ''aaaaaaaa. bb.'' 5 1 ! 0)) = [''aaaaaaaa.'']"
  by (simp add: text_eval)

text \<open>
  C4, amended: for a text whose first sentence is not longer than \<open>chunk_size\<close> (so that
  no sentence is ever emitted on its own) and \<open>overlap = n > 0\<close>, for every pair of
  consecutive emitted chunks of which the first has at least \<open>n\<close> words, the first \<open>n\<close>
  words of the second chunk, or all its words when it has fewer, are the beginning of
  the last \<open>n\<close> words of the first; they are equal to them when the second chunk has at
  least \<open>n\<close> words.
\<close>

theorem overlap_words:
  assumes "0 < overlap"
    and "int (length (hd (split_sentences text))) \<le> chunk_size"
    and "Suc i < length (chunk_text text chunk_size overlap)"
    and "nat overlap \<le> length (split_ws (chunk_text text chunk_size overlap ! i))"
  shows "prefix (take (nat overlap) (split_ws (chunk_text text chunk_size overlap ! Suc i)))
                (slice_last (nat overlap) (split_ws (chunk_text text chunk_size overlap ! i)))
       \<and> (nat overlap \<le> length (split_ws (chunk_text text chunk_size overlap ! Suc i)) \<longrightarrow>
            take (nat overlap) (split_ws (chunk_text text chunk_size overlap ! Suc i)) =
            slice_last (nat overlap) (split_ws (chunk_text text chunk_size overlap ! i)))"
proof -
  let ?out = "chunk_text text chunk_size overlap"
  let ?n = "nat overlap"
  have cs: "0 \<le> chunk_size" using assms(2) by linarith
  have q: "\<forall>p \<in> set (sentence_chunks text chunk_size overlap). p \<noteq> [] \<longrightarrow> split_ws p \<noteq> []"
    using sentence_run_words by (auto simp: sentence_chunks_run)
  have "successively (overlaps ?n) (map split_ws ?out)"
    using blocks_chain[OF assms(1) cs sentence_chunks_first[OF assms(1,2)] q]
    by (simp add: chunk_text_blocks)
  then have "overlaps ?n (map split_ws ?out ! i) (map split_ws ?out ! Suc i)"
    by (rule successively_nth) (use assms(3) in simp)
  then have ov: "overlaps ?n (split_ws (?out ! i)) (split_ws (?out ! Suc i))"
    using assms(3) by simp
  then have p: "prefix (take ?n (split_ws (?out ! Suc i))) (slice_last ?n (split_ws (?out ! i)))"
    using assms(4) by (simp add: overlaps_def)
  have len: "length (slice_last ?n (split_ws (?out ! i))) = ?n"
    using assms(1,4) by (simp add: slice_last_def)
  have "?n \<le> length (split_ws (?out ! Suc i)) \<longrightarrow>
          take ?n (split_ws (?out ! Suc i)) = slice_last ?n (split_ws (?out ! i))"
  proof
    assume "?n \<le> length (split_ws (?out ! Suc i))"
    then have "length (take ?n (split_ws (?out ! Suc i))) = length (slice_last ?n (split_ws (?out ! i)))"
      using len by simp
    with p show "take ?n (split_ws (?out ! Suc i)) = slice_last ?n (split_ws (?out ! i))"
      by (auto simp: prefix_def)
  qed
  with p show ?thesis by simp
qed

theorem overlap_words_witness:
  "take 2 (split_ws (chunk_text ''Sentence one. Sentence two. Sentence three.'' 20 2 ! 3)) =
   slice_last 2 (split_ws (chunk_text ''Sentence one. Sentence two. Sentence three.'' 20 2 ! 2))"
proof -
  let ?t = "''Sentence one. Sentence two. Sentence three.''"
  have a: "(0::int) < 2" by simp
  have b: "int (length (hd (split_sentences ?t))) \<le> 20" by (simp add: text_eval)
  have c: "Suc 2 < length (chunk_text ?t 20 2)" by (simp add: text_eval)
  have d: "nat 2 \<le> length (split_ws (chunk_text ?t 20 2 ! 2))" by (simp add: text_eval)
  have e: "nat 2 \<le> length (split_ws (chunk_text ?t 20 2 ! Suc 2))" by (simp add: text_eval)
  have n: "nat 2 = 2" "Suc 2 = 3" by simp_all
  show ?thesis
    using overlap_words[OF a b c d, THEN conjunct2, THEN mp, OF e] unfolding n .
qed

subsection \<open>C8: empty and blank input\<close>

text \<open>
  C8: for an empty or whitespace-only text \<open>chunk_text\<close> returns no chunk. The code does
  so for the empty text only. A text that is a single space becomes the running chunk,
  passes the test \<open>if current_chunk\<close> because it is not the empty string, and is appended
  after \<open>strip()\<close>: the result is one chunk, the empty string.
\<close>

theorem chunk_text_blank:
  "chunk_text '' '' 1000 100 = [[]] \<and> chunk_text [] 1000 100 = []"
  by (simp add: text_eval)

subsection \<open>C9: \<open>clean_text\<close>\<close>

text \<open>
  C9: \<open>clean_text\<close> turns every run of whitespace into one space and every run of blank
  lines into one blank line, keeping the paragraphs apart. The first substitution
  already replaces the newlines, being whitespace, so the second one never finds a
  blank line: two paragraphs separated by blank lines come out on one line.
\<close>

theorem clean_text_paragraphs:
  "clean_text [CHR ''a'', CHR 0x0A, CHR 0x0A, CHR 0x0A, CHR ''b''] = ''a b''"
  by (simp add: text_eval)

section \<open>Properties of the services and of ingestion\<close>

subsection \<open>What the operations compute\<close>








lemma new_rows_length [simp]: "length (new_rows u did vids xs) = length xs"
  by (induction u did vids xs rule: new_rows.induct) auto






lemma chunk_document_position:
  "map (\<lambda>(i, idx, txt, tokens). i) (enumerate 0 (chunk_document c cs ov)) = [0..<length (chunk_text c cs ov)]"
  by (rule nth_equalityI) (simp_all add: chunk_document_def nth_enumerate_eq)









subsection \<open>Finding and updating documents\<close>







subsection \<open>Points and metadata of a run\<close>










subsection \<open>C5: unchanged content\<close>

text \<open>
  C5: when the document stored for the path carries the hash of the content read,
  \<open>process_document\<close> returns at once. Nothing changes: no row is added, the vector store
  receives no call, the document record is as before.
\<close>

theorem reingest_unchanged:
  assumes "get_document_by_source_path w relative_path = Some d"
    and "content_hash d = calculate_content_hash env file_content"
  shows "process_document env w relative_path stem file_content = w"
  using assms by (simp add: process_document_def)

theorem reingest_unchanged_witness:
  "process_document (demo_env False False) demo_world ''a.md'' ''a'' ''Old.'' = demo_world"
proof -
  have a: "get_document_by_source_path demo_world ''a.md'' = Some (hd (documents demo_world))"
    by (simp add: demo_world_def get_document_by_source_path_def)
  have b: "content_hash (hd (documents demo_world)) = calculate_content_hash (demo_env False False) ''Old.''"
    by (simp add: demo_world_def demo_env_def calculate_content_hash_def)
  show ?thesis using reingest_unchanged[OF a b] .
qed

subsection \<open>C2: when the hash and the flag are written\<close>





subsection \<open>C1: re-ingestion of a changed document\<close>





subsection \<open>C10: the ids that \<open>store_embeddings\<close> returns\<close>




subsection \<open>C6: errors of the vector store stay inside\<close>



subsection \<open>C7: the context of an answer\<close>




end
